theory Spec2Isabelle
  imports Complex_Main "HOL-Library.Sublist"
begin

section \<open>Errors\<close>

text \<open>
  The Python exceptions that the modelled functions of \<^verbatim>\<open>app.py\<close> can raise.
  \<open>NameError\<close> stands for Python's \<^verbatim>\<open>UnboundLocalError\<close>, which is a subclass of
  \<^verbatim>\<open>NameError\<close>; \<open>RequestException\<close> for the exceptions of the \<^verbatim>\<open>requests\<close>
  library (connection refused, timeout, ...), which no function of \<^verbatim>\<open>app.py\<close>
  catches around its HTTP call.
\<close>

datatype error =
    IndexError
  | NameError
  | AttributeError
  | TypeError
  | ValueError
  | RequestException

section \<open>Text and regular expressions\<close>

text \<open>
  A Python \<^verbatim>\<open>str\<close> is modelled as a \<open>string\<close>, one \<open>char\<close> per code point; the
  model therefore covers the texts whose code points are below 256. In that range
  \<^verbatim>\<open>\d\<close> matches the ten ASCII digits only, and \<^verbatim>\<open>str.isspace\<close> holds for the
  code points listed in \<open>isspace\<close>.
\<close>

definition NL :: char where
  "NL = CHR 0x0A"

definition isdigit :: "char \<Rightarrow> bool" where
  "isdigit c = (c \<in> set ''0123456789'')"

definition isspace :: "char \<Rightarrow> bool" where
  "isspace c = (c \<in> set [CHR 0x09, CHR 0x0A, CHR 0x0B, CHR 0x0C, CHR 0x0D,
                           CHR 0x1C, CHR 0x1D, CHR 0x1E, CHR 0x1F, CHR 0x20,
                           CHR 0x85, CHR 0xA0])"

text \<open>
  A matcher tells whether a pattern matches at the very start of a text, and if so how
  many characters the (greedy, leftmost) match takes. \<open>re_sub m repl s\<close> is
  \<^verbatim>\<open>re.sub(pattern, repl, s)\<close> for a pattern that never matches the empty string:
  scan from the left; where the pattern matches, emit \<open>repl\<close> and go on behind the
  match; elsewhere copy one character. None of the patterns of \<^verbatim>\<open>app.py\<close> matches
  the empty string, so the result \<open>Some 0\<close> never arises (it is treated as no match).
\<close>

type_synonym matcher = "string \<Rightarrow> nat option"

fun re_sub :: "matcher \<Rightarrow> string \<Rightarrow> string \<Rightarrow> string" where
  "re_sub m repl [] = []"
| "re_sub m repl (c # cs) =
     (case m (c # cs) of
        Some (Suc n) \<Rightarrow> repl @ re_sub m repl (drop n cs)
      | _ \<Rightarrow> c # re_sub m repl cs)"

text \<open>\<^verbatim>\<open>re.search(pattern, s) is not None\<close>, for the same kind of pattern.\<close>

fun re_search :: "matcher \<Rightarrow> string \<Rightarrow> bool" where
  "re_search m [] = False"
| "re_search m (c # cs) =
     ((case m (c # cs) of Some (Suc n) \<Rightarrow> True | _ \<Rightarrow> False) \<or> re_search m cs)"

text \<open>Sequencing of pattern pieces: each piece maps the text to the number of characters taken.\<close>

definition m_lit :: "string \<Rightarrow> matcher" where
  "m_lit w s = (if prefix w s then Some (length w) else None)"

definition m_digits :: "nat \<Rightarrow> matcher" where
  "m_digits k s = (if k \<le> length s \<and> (\<forall>c \<in> set (take k s). isdigit c) then Some k else None)"

definition m_seq :: "matcher \<Rightarrow> matcher \<Rightarrow> matcher" where
  "m_seq p q s =
     (case p s of None \<Rightarrow> None
      | Some a \<Rightarrow> (case q (drop a s) of None \<Rightarrow> None | Some b \<Rightarrow> Some (a + b)))"

text \<open>
  \<^verbatim>\<open>.*\n\<close>: the dot does not match a newline, so the match runs to the first newline
  and needs one.
\<close>

definition m_rest_of_line :: matcher where
  "m_rest_of_line s =
     (let run = takeWhile (\<lambda>c. c \<noteq> NL) s
      in if length run < length s then Some (Suc (length run)) else None)"

text \<open>\<^verbatim>\<open>\d{2}:\d{2}:\d{2}\.\d{3}\<close>\<close>

definition m_stamp :: matcher where
  "m_stamp =
     m_seq (m_digits 2) (m_seq (m_lit '':'') (m_seq (m_digits 2) (m_seq (m_lit '':'')
       (m_seq (m_digits 2) (m_seq (m_lit ''.'') (m_digits 3))))))"

text \<open>\<^verbatim>\<open>\d{2}:\d{2}:\d{2}\.\d{3} --> \d{2}:\d{2}:\d{2}\.\d{3}.*\n\<close>\<close>

definition m_timestamp_line :: matcher where
  "m_timestamp_line = m_seq m_stamp (m_seq (m_lit '' --> '') (m_seq m_stamp m_rest_of_line))"

text \<open>
  \<^verbatim>\<open><[^>]+>\<close>: the class takes every character up to the next \<open>>\<close> (newlines
  included), at least one, and the \<open>>\<close> must follow.
\<close>

definition m_tag :: matcher where
  "m_tag s =
     (case s of
        [] \<Rightarrow> None
      | c # cs \<Rightarrow>
          (let run = takeWhile (\<lambda>d. d \<noteq> CHR ''>'') cs
           in if c = CHR ''<'' \<and> run \<noteq> [] \<and> length run < length cs
              then Some (length run + 2) else None))"

text \<open>\<^verbatim>\<open>\n{k,}\<close>: a run of at least \<open>k\<close> newlines, taken whole.\<close>

definition m_newlines :: "nat \<Rightarrow> matcher" where
  "m_newlines k s =
     (let run = takeWhile (\<lambda>c. c = NL) s
      in if k \<le> length run then Some (length run) else None)"

text \<open>\<^verbatim>\<open>re.sub(r'^WEBVTT\n\n', '', s)\<close>: without the MULTILINE flag \<open>^\<close> is the start of the text.\<close>

definition strip_header :: "string \<Rightarrow> string" where
  "strip_header s =
     (if prefix (''WEBVTT'' @ [NL, NL]) s then drop (length (''WEBVTT'' @ [NL, NL])) s else s)"

text \<open>
  \<^verbatim>\<open>s.strip()\<close>, \<^verbatim>\<open>s.split('\n')\<close> (a scan that carries the line read so far and
  closes it at each newline and at the end of the text), \<^verbatim>\<open>'\n'.join(ls)\<close> and
  \<^verbatim>\<open>b.startswith(a)\<close>.
\<close>

definition strip :: "string \<Rightarrow> string" where
  "strip s = rev (dropWhile isspace (rev (dropWhile isspace s)))"

fun split_acc :: "string \<Rightarrow> string \<Rightarrow> string list" where
  "split_acc cur [] = [cur]"
| "split_acc cur (c # cs) =
     (if c = NL then cur # split_acc [] cs else split_acc (cur @ [c]) cs)"

definition split_nl :: "string \<Rightarrow> string list" where
  "split_nl s = split_acc [] s"

fun join_nl :: "string list \<Rightarrow> string" where
  "join_nl [] = []"
| "join_nl [l] = l"
| "join_nl (l # k # ls) = l @ NL # join_nl (k # ls)"

definition startswith :: "string \<Rightarrow> string \<Rightarrow> bool" where
  "startswith b a = prefix a b"

section \<open>The caption cleaner\<close>

text \<open>
  The inner loop \<^verbatim>\<open>for j in range(1,3): if not lines[i+j].startswith(lines[i]): break\<close>.
  Its value is the \<open>j\<close> that the statement \<^verbatim>\<open>i += j\<close> reads afterwards, or the
  \<^verbatim>\<open>IndexError\<close> of \<^verbatim>\<open>lines[i+j]\<close>. All indices are non-negative, so Python's
  wrap-around of negative indices plays no part.
\<close>

definition lookahead :: "string list \<Rightarrow> nat \<Rightarrow> error + nat" where
  "lookahead lines i =
     (if length lines \<le> i + 1 then Inl IndexError
      else if \<not> startswith (lines ! (i + 1)) (lines ! i) then Inr 1
      else if length lines \<le> i + 2 then Inl IndexError
      else if \<not> startswith (lines ! (i + 2)) (lines ! i) then Inr 2
      else Inr 2)"

text \<open>
  The loop \<^verbatim>\<open>while i < len(lines)-1\<close> with its state \<open>i\<close> and \<open>unique_lines\<close>.
  \<open>int (length lines) - 1\<close> is computed in the integers, as Python does.
\<close>

function dedup_loop :: "string list \<Rightarrow> nat \<Rightarrow> string list \<Rightarrow> error + string list" where
  "dedup_loop lines i unique_lines =
     (if int i < int (length lines) - 1 then
        (case lookahead lines i of
           Inl e \<Rightarrow> Inl e
         | Inr j \<Rightarrow> dedup_loop lines (i + j) (unique_lines @ [lines ! i]))
      else Inr unique_lines)"
  by pat_completeness auto
termination
proof (relation "measure (\<lambda>(lines, i, u). length lines - i)")
  show "wf (measure (\<lambda>(lines, i, u). length lines - i))" by simp
next
  fix lines :: "string list" and i :: nat and unique_lines :: "string list" and j :: nat
  assume "int i < int (length lines) - 1" and "lookahead lines i = Inr j"
  then show "((lines, i + j, unique_lines @ [lines ! i]), (lines, i, unique_lines))
               \<in> measure (\<lambda>(lines, i, u). length lines - i)"
    by (auto simp: lookahead_def split: if_splits)
qed

declare dedup_loop.simps [simp del]

definition clean_transcript :: "string \<Rightarrow> error + string" where
  "clean_transcript transcript =
     (let transcript = strip_header transcript;
          cleaned = re_sub m_timestamp_line [] transcript;
          cleaned = re_sub m_tag [] cleaned;
          cleaned = re_sub (m_lit (''align:start position:0%'' @ [NL])) [] cleaned;
          cleaned = re_sub (m_newlines 3) [NL, NL] cleaned;
          cleaned = strip cleaned;
          lines = split_nl cleaned
      in case dedup_loop lines 0 [] of
           Inl e \<Rightarrow> Inl e
         | Inr unique_lines \<Rightarrow> Inr (re_sub (m_newlines 2) [NL] (join_nl unique_lines)))"

section \<open>Parsed JSON and HTTP outcomes\<close>

text \<open>
  What \<^verbatim>\<open>response.json()\<close> yields: numbers are kept exact (an integer or a finite
  decimal), an object is the list of the key/value pairs of the parsed dict, each key
  once.
\<close>

datatype json =
    JNull
  | JBool bool
  | JNumber rat
  | JString string
  | JArray "json list"
  | JObject "(string \<times> json) list"

text \<open>
  An HTTP response as \<^verbatim>\<open>app.py\<close> reads it: the status code and the parsed body,
  \<open>None\<close> when the body is not JSON (then \<^verbatim>\<open>response.json()\<close> raises). The outcome
  of \<^verbatim>\<open>requests.get\<close> or \<^verbatim>\<open>requests.post\<close> is a response, or an exception raised by
  the library when no response arrives.
\<close>

record response =
  status_code :: int
  body :: "json option"

type_synonym http_outcome = "error + response"

definition response_json :: "response \<Rightarrow> error + json" where
  "response_json r = (case body r of None \<Rightarrow> Inl ValueError | Some v \<Rightarrow> Inr v)"

text \<open>\<^verbatim>\<open>d.get(key, default)\<close>: only a dict has the method.\<close>

definition py_get :: "json \<Rightarrow> string \<Rightarrow> json \<Rightarrow> error + json" where
  "py_get d key dflt =
     (case d of
        JObject kvs \<Rightarrow> Inr (case map_of kvs key of Some v \<Rightarrow> v | None \<Rightarrow> dflt)
      | _ \<Rightarrow> Inl AttributeError)"

text \<open>\<^verbatim>\<open>v <= n\<close> for a number \<open>n\<close>: defined on numbers and booleans, a TypeError otherwise.\<close>

definition py_le :: "json \<Rightarrow> rat \<Rightarrow> error + bool" where
  "py_le v n =
     (case v of
        JNumber x \<Rightarrow> Inr (x \<le> n)
      | JBool b \<Rightarrow> Inr ((if b then 1 else 0) \<le> n)
      | _ \<Rightarrow> Inl TypeError)"

datatype level = INFO | WARNING | ERROR

section \<open>The model selector\<close>

record message =
  role :: string
  content :: string

definition models :: "string list" where
  "models = [''moonshot-v1-8k'', ''moonshot-v1-32k'', ''moonshot-v1-128k'']"

text \<open>\<^verbatim>\<open>s.split()\<close>: the maximal runs of characters that are not whitespace.\<close>

fun split_ws_acc :: "string \<Rightarrow> string \<Rightarrow> string list" where
  "split_ws_acc cur [] = (if cur = [] then [] else [cur])"
| "split_ws_acc cur (c # cs) =
     (if isspace c then (if cur = [] then split_ws_acc [] cs else cur # split_ws_acc [] cs)
      else split_ws_acc (cur @ [c]) cs)"

definition split_ws :: "string \<Rightarrow> string list" where
  "split_ws s = split_ws_acc [] s"

text \<open>
  The fallback estimate
  \<^verbatim>\<open>len("".join([message["content"] for message in messages]).split()) * 1.3\<close>.
  The factor is the rational 13/10: for a whole number of words the product never lies
  within rounding distance of 8000 or 32000, so Python's binary floating point decides
  both comparisons of the selector as the exact product does.
\<close>

definition fallback_estimate :: "message list \<Rightarrow> json" where
  "fallback_estimate messages =
     JNumber (of_nat (length (split_ws (concat (map content messages)))) * (13 / 10))"

text \<open>\<^verbatim>\<open>response.json().get('data', {}).get('total_tokens', 0)\<close>\<close>

definition api_token_count :: "response \<Rightarrow> error + json" where
  "api_token_count r =
     (case response_json r of
        Inl e \<Rightarrow> Inl e
      | Inr j \<Rightarrow>
          (case py_get j ''data'' (JObject []) of
             Inl e \<Rightarrow> Inl e
           | Inr d \<Rightarrow> py_get d ''total_tokens'' (JNumber 0)))"

text \<open>The \<^verbatim>\<open>if\<close>/\<^verbatim>\<open>elif\<close>/\<^verbatim>\<open>else\<close> chain on \<^verbatim>\<open>token_count\<close>.\<close>

definition select_model :: "json \<Rightarrow> error + string" where
  "select_model token_count =
     (case py_le token_count 8000 of
        Inl e \<Rightarrow> Inl e
      | Inr True \<Rightarrow> Inr (models ! 0)
      | Inr False \<Rightarrow>
          (case py_le token_count 32000 of
             Inl e \<Rightarrow> Inl e
           | Inr True \<Rightarrow> Inr (models ! 1)
           | Inr False \<Rightarrow> Inr (models ! 2)))"

text \<open>
  \<open>choose_model messages outcome\<close>: \<open>outcome\<close> is what \<^verbatim>\<open>requests.post\<close> does. The
  result is the list of log levels written, in order, and the returned model or the
  exception that leaves the function. The call is not inside a \<^verbatim>\<open>try\<close>.
\<close>

definition choose_model :: "message list \<Rightarrow> http_outcome \<Rightarrow> level list \<times> (error + string)" where
  "choose_model messages outcome =
     (case outcome of
        Inl e \<Rightarrow> ([INFO], Inl e)
      | Inr r \<Rightarrow>
          (if status_code r = 200 then
             (case api_token_count r of
                Inl e \<Rightarrow> ([INFO], Inl e)
              | Inr token_count \<Rightarrow>
                  (case select_model token_count of
                     Inl e \<Rightarrow> ([INFO, INFO], Inl e)
                   | Inr model \<Rightarrow> ([INFO, INFO, INFO], Inr model)))
           else
             (case select_model (fallback_estimate messages) of
                Inl e \<Rightarrow> ([INFO, WARNING], Inl e)
              | Inr model \<Rightarrow> ([INFO, WARNING, INFO], Inr model))))"

section \<open>The balance check\<close>

record balance_info =
  available_balance :: json
  voucher_balance :: json
  cash_balance :: json

definition check_balance :: "http_outcome \<Rightarrow> level list \<times> (error + balance_info)" where
  "check_balance outcome =
     (case outcome of
        Inl e \<Rightarrow> ([INFO], Inl e)
      | Inr r \<Rightarrow>
          (if status_code r = 200 then
             (case response_json r of
                Inl e \<Rightarrow> ([INFO], Inl e)
              | Inr j \<Rightarrow>
                  (case py_get j ''data'' (JObject []) of
                     Inl e \<Rightarrow> ([INFO], Inl e)
                   | Inr balance_data \<Rightarrow>
                       (case py_get balance_data ''available_balance'' (JNumber 0) of
                          Inl e \<Rightarrow> ([INFO], Inl e)
                        | Inr a \<Rightarrow>
                            (case py_get balance_data ''voucher_balance'' (JNumber 0) of
                               Inl e \<Rightarrow> ([INFO], Inl e)
                             | Inr v \<Rightarrow>
                                 (case py_get balance_data ''cash_balance'' (JNumber 0) of
                                    Inl e \<Rightarrow> ([INFO], Inl e)
                                  | Inr c \<Rightarrow>
                                      ([INFO, INFO],
                                       Inr \<lparr>available_balance = a, voucher_balance = v,
                                            cash_balance = c\<rparr>))))))
           else
             ([INFO, ERROR],
              Inr \<lparr>available_balance = JNumber 0, voucher_balance = JNumber 0,
                   cash_balance = JNumber 0\<rparr>)))"

section \<open>The history file and the routes that use it\<close>

text \<open>
  One entry of \<^verbatim>\<open>summary_history.json\<close>, as \<^verbatim>\<open>save_summary\<close> writes it. The file is
  \<open>None\<close> while it does not exist, else the list of its entries.
\<close>

record summary_data =
  youtube_url :: string
  video_title :: string
  reading_time :: string
  summary :: string
  timestamp :: string

type_synonym history_file = "summary_data list option"

definition save_summary ::
    "string \<Rightarrow> string \<Rightarrow> string \<Rightarrow> string \<Rightarrow> string \<Rightarrow> history_file \<Rightarrow> history_file" where
  "save_summary url rtime text title now file =
     (let entry = \<lparr>youtube_url = url, video_title = title, reading_time = rtime,
                    summary = text, timestamp = now\<rparr>;
          history = (case file of Some h \<Rightarrow> h | None \<Rightarrow> [])
      in Some (history @ [entry]))"

definition history :: "history_file \<Rightarrow> summary_data list" where
  "history file = (case file of Some h \<Rightarrow> h | None \<Rightarrow> [])"

datatype reply =
    Body string nat
  | Attachment string string
  | Redirect string

text \<open>
  \<^verbatim>\<open>delete_summary(timestamp)\<close>: the new state of the file and the reply, a redirect to
  the history page.
\<close>

definition delete_summary :: "string \<Rightarrow> history_file \<Rightarrow> history_file \<times> reply" where
  "delete_summary ts file =
     (case file of
        Some h \<Rightarrow> (Some (filter (\<lambda>item. timestamp item \<noteq> ts) h), Redirect ''history'')
      | None \<Rightarrow> (None, Redirect ''history''))"

text \<open>
  A local variable of \<^verbatim>\<open>download\<close> is unbound until an assignment runs. A query
  parameter read with \<^verbatim>\<open>request.args.get\<close> is \<open>None\<close> when the request lacks it.
\<close>

datatype 'a local_var = Unbound | Bound 'a

definition py_str :: "string option \<Rightarrow> string" where
  "py_str v = (case v of Some s \<Rightarrow> s | None \<Rightarrow> ''None'')"

text \<open>
  The tail of \<^verbatim>\<open>download\<close>: \<^verbatim>\<open>content.encode('utf-8')\<close> reads \<open>content\<close>, then
  \<^verbatim>\<open>filename\<close> is read for the log line and for \<^verbatim>\<open>send_file\<close>.
\<close>

definition send_download :: "string option local_var \<Rightarrow> string local_var \<Rightarrow> error + reply" where
  "send_download content_var filename_var =
     (case content_var of
        Unbound \<Rightarrow> Inl NameError
      | Bound None \<Rightarrow> Inl AttributeError
      | Bound (Some c) \<Rightarrow>
          (case filename_var of
             Unbound \<Rightarrow> Inl NameError
           | Bound f \<Rightarrow> Inr (Attachment c f)))"

definition download :: "string \<Rightarrow> (string \<rightharpoonup> string) \<Rightarrow> history_file \<Rightarrow> error + reply" where
  "download file_type args file =
     (if file_type = ''summary'' then
        send_download (Bound (args ''content'')) (Bound ''summary.md'')
      else if file_type = ''transcript'' then
        send_download (Bound (args ''content'')) (Bound ''transcript.md'')
      else if file_type = ''history_summary'' then
        (case file of
           Some h \<Rightarrow>
             (case find (\<lambda>item. Some (timestamp item) = args ''timestamp'') h of
                Some entry \<Rightarrow>
                  send_download (Bound (Some (summary entry)))
                    (Bound (''summary_'' @ py_str (args ''timestamp'') @ ''.md''))
              | None \<Rightarrow> Inr (Body ''Summary not found'' 404))
         | None \<Rightarrow> send_download Unbound Unbound)
      else Inr (Body ''Invalid file type'' 400))"

section \<open>Noise in a text, and sample data\<close>

text \<open>
  The kinds of noise that \<open>clean_transcript\<close> is after. A caption file opens with the
  line \<^verbatim>\<open>WEBVTT\<close>: a text has the header when that is its first line. A timestamp
  range with the rest of its line, an inline tag and the alignment text are found by
  the patterns of steps 2, 3 and 4.
\<close>

definition has_header :: "string \<Rightarrow> bool" where
  "has_header s = (hd (split_nl s) = ''WEBVTT'')"

definition has_timestamp_line :: "string \<Rightarrow> bool" where
  "has_timestamp_line s = re_search m_timestamp_line s"

definition has_tag :: "string \<Rightarrow> bool" where
  "has_tag s = re_search m_tag s"

definition has_alignment :: "string \<Rightarrow> bool" where
  "has_alignment s = re_search (m_lit (''align:start position:0%'' @ [NL])) s"

text \<open>
  A tag starts at the character \<open>c\<close> followed by \<open>cs\<close>: \<open>c\<close> is \<open><\<close>, at least one
  character other than \<open>>\<close> comes next, and a \<open>>\<close> follows.
\<close>

definition tag_opens :: "char \<Rightarrow> string \<Rightarrow> bool" where
  "tag_opens c cs = (c = CHR ''<'' \<and> cs \<noteq> [] \<and> hd cs \<noteq> CHR ''>'' \<and> CHR ''>'' \<in> set cs)"

text \<open>Steps 1 to 6 of \<open>clean_transcript\<close>: the text that it then splits into lines.\<close>

definition cleaned_before_dedup :: "string \<Rightarrow> string" where
  "cleaned_before_dedup transcript =
     strip (re_sub (m_newlines 3) [NL, NL]
       (re_sub (m_lit (''align:start position:0%'' @ [NL])) []
         (re_sub m_tag [] (re_sub m_timestamp_line [] (strip_header transcript)))))"

text \<open>No blank line: no two newlines in a row.\<close>

definition no_blank_line :: "string \<Rightarrow> bool" where
  "no_blank_line s = successively (\<lambda>a b. \<not> (a = NL \<and> b = NL)) s"

text \<open>\<^verbatim>\<open>clean_transcript(clean_transcript(t))\<close>: an exception of the first call ends the second too.\<close>

definition clean_twice :: "string \<Rightarrow> error + string" where
  "clean_twice t = (case clean_transcript t of Inl e \<Rightarrow> Inl e | Inr v \<Rightarrow> clean_transcript v)"

text \<open>Three entries of a history file, with three different timestamps.\<close>

definition entry1 :: summary_data where
  "entry1 = \<lparr>youtube_url = ''https://youtu.be/a'', video_title = ''First'', reading_time = ''5'',
             summary = ''one'', timestamp = ''2024-05-01T10:00:00.000001''\<rparr>"

definition entry2 :: summary_data where
  "entry2 = \<lparr>youtube_url = ''https://youtu.be/b'', video_title = ''Second'', reading_time = ''10'',
             summary = ''two'', timestamp = ''2024-05-02T11:30:00.000002''\<rparr>"

definition entry3 :: summary_data where
  "entry3 = \<lparr>youtube_url = ''https://youtu.be/a'', video_title = ''First'', reading_time = ''5'',
             summary = ''one again'', timestamp = ''2024-05-03T12:45:00.000003''\<rparr>"

text \<open>A successful reply of the token-estimate endpoint that reports \<open>n\<close> tokens.\<close>

definition api_reply :: "rat \<Rightarrow> response" where
  "api_reply n =
     \<lparr>status_code = 200,
      body = Some (JObject [(''data'', JObject [(''total_tokens'', JNumber n)])])\<rparr>"

section \<open>Properties of the model selector\<close>

lemma select_model_number:
  "select_model (JNumber n) =
     Inr (if n \<le> 8000 then ''moonshot-v1-8k''
          else if n \<le> 32000 then ''moonshot-v1-32k'' else ''moonshot-v1-128k'')"
  by (simp add: select_model_def py_le_def models_def)

lemma select_model_number_in_models:
  "\<exists>model \<in> set models. select_model (JNumber n) = Inr model"
  by (simp add: select_model_number models_def)

text \<open>
  Claim C3. Whatever token count \<open>n\<close> is obtained, from the endpoint (status 200) or
  from the fallback estimate (any other status), \<open>choose_model\<close> returns the smallest
  tier when \<open>n \<le> 8000\<close>, the medium tier when \<open>8000 < n \<le> 32000\<close> and the largest
  tier otherwise.
\<close>

theorem choose_model_thresholds:
  assumes "(status_code r = 200 \<and> api_token_count r = Inr (JNumber n))
           \<or> (status_code r \<noteq> 200 \<and> fallback_estimate messages = JNumber n)"
  shows "snd (choose_model messages (Inr r)) =
           Inr (if n \<le> 8000 then ''moonshot-v1-8k''
                else if n \<le> 32000 then ''moonshot-v1-32k'' else ''moonshot-v1-128k'')"
  using assms by (auto simp: choose_model_def select_model_def py_le_def models_def)

text \<open>The boundary counts: 8000 gives the smallest tier, 8001 the medium one, 32001 the largest.\<close>

theorem choose_model_thresholds_witness:
  "snd (choose_model [] (Inr (api_reply 8000))) = Inr ''moonshot-v1-8k''
   \<and> snd (choose_model [] (Inr (api_reply 8001))) = Inr ''moonshot-v1-32k''
   \<and> snd (choose_model [] (Inr (api_reply 32001))) = Inr ''moonshot-v1-128k''"
proof -
  have a: "status_code (api_reply n) = 200 \<and> api_token_count (api_reply n) = Inr (JNumber n)" for n
    by (simp add: api_reply_def api_token_count_def response_json_def py_get_def)
  show ?thesis
    using choose_model_thresholds [of "api_reply 8000" 8000 "[]", OF disjI1 [OF a]]
      choose_model_thresholds [of "api_reply 8001" 8001 "[]", OF disjI1 [OF a]]
      choose_model_thresholds [of "api_reply 32001" 32001 "[]", OF disjI1 [OF a]]
    by simp
qed

text \<open>
  Claim C2, as amended. When the estimate endpoint answers with a status other than 200,
  \<open>choose_model\<close> logs a warning, takes the fallback estimate and returns one of the
  three tiers. When the request itself raises (no response arrives), the exception
  leaves \<open>choose_model\<close>: only the opening log line has been written.
\<close>

theorem choose_model_fallback:
  "(status_code r \<noteq> 200 \<longrightarrow>
      (\<exists>model \<in> set models.
          choose_model messages (Inr r) = ([INFO, WARNING, INFO], Inr model)
          \<and> select_model (fallback_estimate messages) = Inr model))
   \<and> choose_model messages (Inl e) = ([INFO], Inl e)"
proof -
  obtain n where n: "fallback_estimate messages = JNumber n"
    unfolding fallback_estimate_def by blast
  obtain model where m: "model \<in> set models" "select_model (JNumber n) = Inr model"
    using select_model_number_in_models by blast
  have "status_code r \<noteq> 200 \<Longrightarrow>
          choose_model messages (Inr r) = ([INFO, WARNING, INFO], Inr model)"
    by (simp add: choose_model_def n m)
  moreover have "choose_model messages (Inl e) = ([INFO], Inl e)"
    by (simp add: choose_model_def)
  ultimately show ?thesis using n m by auto
qed

theorem choose_model_fallback_witness:
  "(\<exists>model \<in> set models.
      choose_model [\<lparr>role = ''user'', content = ''hello world''\<rparr>]
          (Inr \<lparr>status_code = 500, body = None\<rparr>) = ([INFO, WARNING, INFO], Inr model))
   \<and> choose_model [\<lparr>role = ''user'', content = ''hello world''\<rparr>]
          (Inr \<lparr>status_code = 500, body = None\<rparr>) = ([INFO, WARNING, INFO], Inr ''moonshot-v1-8k'')
   \<and> fallback_estimate [\<lparr>role = ''user'', content = ''hello world''\<rparr>] = JNumber (13 / 5)"
proof -
  have f: "fallback_estimate [\<lparr>role = ''user'', content = ''hello world''\<rparr>] = JNumber (13 / 5)"
    by (simp add: fallback_estimate_def split_ws_def isspace_def)
  have s: "select_model (JNumber (13 / 5)) = Inr ''moonshot-v1-8k''"
    by (simp add: select_model_number)
  show ?thesis
    using choose_model_fallback [of "\<lparr>status_code = 500, body = None\<rparr>"
        "[\<lparr>role = ''user'', content = ''hello world''\<rparr>]" RequestException]
    by (auto simp: f s)
qed

text \<open>
  The claim as stated fails on a network error: \<^verbatim>\<open>requests.post\<close> raises, nothing
  catches it, and no tier is returned.
\<close>

theorem choose_model_network_error:
  "choose_model [\<lparr>role = ''user'', content = ''hello world''\<rparr>] (Inl RequestException)
     = ([INFO], Inl RequestException)"
  by (simp add: choose_model_def)

section \<open>Properties of the balance check\<close>

text \<open>
  Claim C8, as amended. When the balance endpoint answers with a status other than 200,
  \<open>check_balance\<close> logs an error and returns the three balances as zero.
\<close>

theorem check_balance_non_200:
  "status_code r \<noteq> 200 \<Longrightarrow>
     check_balance (Inr r) =
       ([INFO, ERROR],
        Inr \<lparr>available_balance = JNumber 0, voucher_balance = JNumber 0, cash_balance = JNumber 0\<rparr>)"
  by (simp add: check_balance_def)

theorem check_balance_non_200_witness:
  "check_balance (Inr \<lparr>status_code = 500, body = None\<rparr>) =
       ([INFO, ERROR],
        Inr \<lparr>available_balance = JNumber 0, voucher_balance = JNumber 0, cash_balance = JNumber 0\<rparr>)"
  using check_balance_non_200 [of "\<lparr>status_code = 500, body = None\<rparr>"] by simp

text \<open>
  The claim as stated fails when the request raises: \<^verbatim>\<open>requests.get\<close> is not inside a
  \<^verbatim>\<open>try\<close>, so the exception leaves \<open>check_balance\<close> and no balances are returned.
\<close>

theorem check_balance_network_error:
  "check_balance (Inl RequestException) = ([INFO], Inl RequestException)"
  by (simp add: check_balance_def)

section \<open>Properties of the history routes\<close>

text \<open>
  Claim C7. Deleting by a timestamp leaves an absent file absent; on a history \<open>h\<close> it
  writes a history \<open>h'\<close> in which no entry has that timestamp, which is \<open>h\<close> with
  entries left out (the order of the others is kept), and in which every entry with
  another timestamp occurs as often as before, with all its fields. When exactly one
  entry has the timestamp, \<open>h'\<close> is \<open>h\<close> without that entry.
\<close>

theorem delete_summary_exact:
  "fst (delete_summary ts None) = None
   \<and> (\<exists>h'. fst (delete_summary ts (Some h)) = Some h'
         \<and> (\<forall>x \<in> set h'. timestamp x \<noteq> ts)
         \<and> subseq h' h
         \<and> (\<forall>x \<in> set h. timestamp x \<noteq> ts \<longrightarrow> count_list h' x = count_list h x)
         \<and> (\<forall>xs e ys. h = xs @ e # ys \<and> timestamp e = ts
                \<and> (\<forall>x \<in> set (xs @ ys). timestamp x \<noteq> ts) \<longrightarrow> h' = xs @ ys))"
proof -
  let ?h' = "filter (\<lambda>item. timestamp item \<noteq> ts) h"
  have 1: "fst (delete_summary ts (Some h)) = Some ?h'"
    by (simp add: delete_summary_def)
  have 2: "\<forall>x \<in> set ?h'. timestamp x \<noteq> ts" by simp
  have 3: "subseq ?h' h" by simp
  have 4: "\<forall>x \<in> set h. timestamp x \<noteq> ts \<longrightarrow> count_list ?h' x = count_list h x"
    by (induction h) auto
  have 5: "\<forall>xs e ys. h = xs @ e # ys \<and> timestamp e = ts
                \<and> (\<forall>x \<in> set (xs @ ys). timestamp x \<noteq> ts) \<longrightarrow> ?h' = xs @ ys"
    by (auto simp: filter_id_conv)
  have 0: "fst (delete_summary ts None) = None"
    by (simp add: delete_summary_def)
  show ?thesis using 0 1 2 3 4 5 by blast
qed

theorem delete_summary_exact_witness:
  "fst (delete_summary (timestamp entry2) (Some [entry1, entry2, entry3])) = Some [entry1, entry3]"
proof -
  let ?ts = "timestamp entry2"
  obtain h' where h: "fst (delete_summary ?ts (Some [entry1, entry2, entry3])) = Some h'"
    and r: "\<forall>xs e ys. [entry1, entry2, entry3] = xs @ e # ys \<and> timestamp e = ?ts
                \<and> (\<forall>x \<in> set (xs @ ys). timestamp x \<noteq> ?ts) \<longrightarrow> h' = xs @ ys"
    using delete_summary_exact [of ?ts "[entry1, entry2, entry3]"] by blast
  have "[entry1, entry2, entry3] = [entry1] @ entry2 # [entry3] \<and> timestamp entry2 = ?ts
          \<and> (\<forall>x \<in> set ([entry1] @ [entry3]). timestamp x \<noteq> ?ts)"
    by (simp add: entry1_def entry2_def entry3_def)
  with r have "h' = [entry1] @ [entry3]" by blast
  with h show ?thesis by simp
qed

text \<open>
  Claim C10. In the download route, with \<^verbatim>\<open>file_type\<close> \<^verbatim>\<open>history_summary\<close> and no
  history file on disk, neither \<^verbatim>\<open>content\<close> nor \<^verbatim>\<open>filename\<close> is assigned, and reading
  \<^verbatim>\<open>content\<close> raises a NameError (an UnboundLocalError); no reply is produced, whatever
  the query parameters.
\<close>

theorem download_history_without_file:
  "download ''history_summary'' args None = Inl NameError"
  by (simp add: download_def send_download_def)

section \<open>Lemmas about the text operations\<close>

subsection \<open>Rules for the substitution scan\<close>

declare re_sub.simps(2) [simp del]

lemma re_sub_match:
  "m (c # cs) = Some (Suc n) \<Longrightarrow> re_sub m repl (c # cs) = repl @ re_sub m repl (drop n cs)"
  by (simp add: re_sub.simps(2))

lemma re_sub_copy:
  "\<forall>n. m (c # cs) \<noteq> Some (Suc n) \<Longrightarrow> re_sub m repl (c # cs) = c # re_sub m repl cs"
  by (auto simp: re_sub.simps(2) split: option.splits nat.splits)

lemma re_sub_induct [case_names Nil Match Copy]:
  assumes "P []"
    and "\<And>c cs n. m (c # cs) = Some (Suc n) \<Longrightarrow> P (drop n cs) \<Longrightarrow> P (c # cs)"
    and "\<And>c cs. \<forall>n. m (c # cs) \<noteq> Some (Suc n) \<Longrightarrow> P cs \<Longrightarrow> P (c # cs)"
  shows "P s"
proof (induction s rule: length_induct)
  case (1 s)
  show ?case
  proof (cases s)
    case Nil
    then show ?thesis using assms(1) by simp
  next
    case (Cons c cs)
    show ?thesis
    proof (cases "\<exists>n. m (c # cs) = Some (Suc n)")
      case True
      then obtain n where n: "m (c # cs) = Some (Suc n)" by blast
      have "length (drop n cs) < length s" using Cons by simp
      then have "P (drop n cs)" using 1 by blast
      then show ?thesis using assms(2) [OF n] Cons by simp
    next
      case False
      have "P cs" using 1 Cons by simp
      then show ?thesis using assms(3) [of c cs] False Cons by blast
    qed
  qed
qed

lemma set_re_sub: "set (re_sub m repl s) \<subseteq> set s \<union> set repl"
proof (induction s rule: re_sub_induct [where m = m])
  case Nil
  then show ?case by simp
next
  case (Match c cs n)
  have "set (drop n cs) \<subseteq> set cs" by (rule set_drop_subset)
  then show ?case using Match by (auto simp: re_sub_match)
next
  case (Copy c cs)
  then show ?case by (auto simp: re_sub_copy)
qed

subsection \<open>Texts without a tag\<close>

text \<open>
  A tag starts at \<open>c # cs\<close> when \<open>c\<close> is \<open><\<close>, the next character is not \<open>>\<close> and
  a \<open>>\<close> follows somewhere.
\<close>

lemma m_tag_Cons:
  "m_tag (c # cs) =
     (if tag_opens c cs then Some (length (takeWhile (\<lambda>d. d \<noteq> CHR ''>'') cs) + 2) else None)"
proof -
  let ?run = "takeWhile (\<lambda>d. d \<noteq> CHR ''>'') cs"
  have a: "?run \<noteq> [] \<longleftrightarrow> cs \<noteq> [] \<and> hd cs \<noteq> CHR ''>''"
    by (cases cs) auto
  have "length ?run = length cs \<longleftrightarrow> ?run = cs"
    by (metis takeWhile_eq_take take_all_iff order_refl)
  then have b: "length ?run < length cs \<longleftrightarrow> CHR ''>'' \<in> set cs"
    using length_takeWhile_le [of "\<lambda>d. d \<noteq> CHR ''>''" cs]
    by (auto simp: less_le)
  show ?thesis by (simp add: m_tag_def tag_opens_def a b Let_def)
qed

lemma has_tag_Nil [simp]: "\<not> has_tag []"
  by (simp add: has_tag_def)

lemma has_tag_Cons: "has_tag (c # cs) = (tag_opens c cs \<or> has_tag cs)"
  by (auto simp: has_tag_def m_tag_Cons)

lemma has_tag_append_right: "has_tag b \<Longrightarrow> has_tag (a @ b)"
  by (induction a) (auto simp: has_tag_Cons)

text \<open>
  Replacing what follows a text \<open>x\<close> by something that has no more \<open>>\<close> than before and
  starts alike creates no tag.
\<close>

lemma has_tag_replace_tail:
  assumes "\<not> has_tag (x @ r)" and "\<not> has_tag r'"
    and "CHR ''>'' \<in> set r' \<Longrightarrow> CHR ''>'' \<in> set r"
    and "r' = [] \<or> (r \<noteq> [] \<and> hd r' = hd r)"
  shows "\<not> has_tag (x @ r')"
  using assms(1)
proof (induction x)
  case Nil
  then show ?case using assms(2) by simp
next
  case (Cons c x)
  then have no: "\<not> tag_opens c (x @ r)" and rest: "\<not> has_tag (x @ r)"
    by (auto simp: has_tag_Cons)
  have "\<not> tag_opens c (x @ r')"
  proof (cases x)
    case Nil
    then show ?thesis using no assms(3,4) by (auto simp: tag_opens_def)
  next
    case (Cons d x')
    then show ?thesis using no assms(3) by (auto simp: tag_opens_def)
  qed
  then show ?case using Cons.IH [OF rest] by (simp add: has_tag_Cons)
qed

lemma has_tag_append_left: "\<not> has_tag (a @ b) \<Longrightarrow> \<not> has_tag a"
  using has_tag_replace_tail [of a b "[]"] by simp

lemma has_tag_prepend: "CHR ''<'' \<notin> set a \<Longrightarrow> has_tag (a @ b) = has_tag b"
  by (induction a) (auto simp: has_tag_Cons tag_opens_def)

text \<open>
  A scan whose pattern never starts at a \<open>>\<close> and whose replacement has no \<open>>\<close> opens
  no tag behind a character that opened none before.
\<close>

lemma tag_opens_re_sub:
  assumes m: "\<And>s n. m s = Some (Suc n) \<Longrightarrow> hd s \<noteq> CHR ''>''"
    and repl: "CHR ''>'' \<notin> set repl"
    and no: "\<not> tag_opens c cs"
  shows "\<not> tag_opens c (re_sub m repl cs)"
proof
  assume o: "tag_opens c (re_sub m repl cs)"
  then have "CHR ''>'' \<in> set (re_sub m repl cs)" by (simp add: tag_opens_def)
  then have "CHR ''>'' \<in> set cs" using set_re_sub [of m repl cs] repl by auto
  then have cs: "cs \<noteq> []" "hd cs = CHR ''>''" using no o by (auto simp: tag_opens_def)
  then obtain cs' where cs': "cs = CHR ''>'' # cs'" by (cases cs) auto
  have "\<forall>n. m (CHR ''>'' # cs') \<noteq> Some (Suc n)" using m by fastforce
  then have "hd (re_sub m repl cs) = CHR ''>''" using cs' by (simp add: re_sub_copy)
  then show False using o by (simp add: tag_opens_def)
qed

lemma m_tag_starts:
  assumes "m_tag s = Some (Suc n)"
  shows "hd s \<noteq> CHR ''>''"
proof (cases s)
  case Nil
  then show ?thesis using assms by (simp add: m_tag_def)
next
  case (Cons c cs)
  then show ?thesis using assms by (auto simp: m_tag_Cons tag_opens_def split: if_splits)
qed

text \<open>Step 3 leaves no tag.\<close>

lemma no_tag_after_tag_removal: "\<not> has_tag (re_sub m_tag [] s)"
proof (induction s rule: re_sub_induct [where m = m_tag])
  case Nil
  then show ?case by simp
next
  case (Match c cs n)
  then show ?case by (simp add: re_sub_match)
next
  case (Copy c cs)
  then have "\<not> tag_opens c cs" by (auto simp: m_tag_Cons split: if_splits)
  then have "\<not> tag_opens c (re_sub m_tag [] cs)"
    using tag_opens_re_sub [of m_tag "[]" c cs] m_tag_starts by simp
  then show ?case using Copy by (simp add: re_sub_copy has_tag_Cons)
qed

text \<open>
  A later scan, with a pattern that never starts at \<open>>\<close> and a replacement free of \<open><\<close>
  and \<open>>\<close>, keeps a text tag-free.
\<close>

lemma no_tag_re_sub:
  assumes m: "\<And>s n. m s = Some (Suc n) \<Longrightarrow> hd s \<noteq> CHR ''>''"
    and repl: "CHR ''>'' \<notin> set repl" "CHR ''<'' \<notin> set repl"
  shows "\<not> has_tag s \<Longrightarrow> \<not> has_tag (re_sub m repl s)"
proof (induction s rule: re_sub_induct [where m = m])
  case Nil
  then show ?case by simp
next
  case (Match c cs n)
  have "c # cs = take (Suc n) (c # cs) @ drop n cs" by simp
  then have "\<not> has_tag (drop n cs)"
    using Match.prems has_tag_append_right by metis
  then have "\<not> has_tag (re_sub m repl (drop n cs))" using Match.IH by simp
  then show ?case using Match.hyps repl by (simp add: re_sub_match has_tag_prepend)
next
  case (Copy c cs)
  then have "\<not> tag_opens c cs" "\<not> has_tag cs" by (auto simp: has_tag_Cons)
  then show ?case
    using Copy tag_opens_re_sub [of m repl c cs] m repl(1) by (simp add: re_sub_copy has_tag_Cons)
qed

subsection \<open>The patterns of steps 4, 5 and 8\<close>

lemma NL_neq [simp]: "NL \<noteq> CHR ''>''" "NL \<noteq> CHR ''<''" "CHR ''>'' \<noteq> NL" "CHR ''<'' \<noteq> NL"
  by (simp_all add: NL_def)

lemma m_lit_starts: "m_lit w s = Some (Suc n) \<Longrightarrow> hd s = hd w \<and> w \<noteq> []"
  by (cases w; cases s) (auto simp: m_lit_def split: if_splits)

lemma m_newlines_starts: "m_newlines k s = Some (Suc n) \<Longrightarrow> s \<noteq> [] \<and> hd s = NL"
  by (cases s) (auto simp: m_newlines_def Let_def split: if_splits)

lemma m_newlines_rest:
  assumes "m_newlines k (c # cs) = Some (Suc n)"
  shows "drop n cs = dropWhile (\<lambda>c. c = NL) (c # cs)"
proof -
  have "Suc n = length (takeWhile (\<lambda>c. c = NL) (c # cs))"
    using assms by (auto simp: m_newlines_def Let_def split: if_splits)
  then have "drop (Suc n) (c # cs) = dropWhile (\<lambda>c. c = NL) (c # cs)"
    by (simp only: dropWhile_eq_drop)
  then show ?thesis by simp
qed

lemma no_tag_strip: "\<not> has_tag s \<Longrightarrow> \<not> has_tag (strip s)"
proof -
  assume a: "\<not> has_tag s"
  let ?t = "dropWhile isspace s"
  have "s = takeWhile isspace s @ ?t" by simp
  then have t: "\<not> has_tag ?t" using a has_tag_append_right by metis
  have "rev ?t = takeWhile isspace (rev ?t) @ dropWhile isspace (rev ?t)" by simp
  then have "?t = strip s @ rev (takeWhile isspace (rev ?t))"
    unfolding strip_def by (metis rev_append rev_rev_ident)
  then show ?thesis using t has_tag_append_left by metis
qed

subsection \<open>Lines\<close>

lemma split_acc_not_Nil [simp]: "split_acc cur s \<noteq> []"
  by (induction s arbitrary: cur) auto

lemma join_nl_Cons: "ls \<noteq> [] \<Longrightarrow> join_nl (l # ls) = l @ NL # join_nl ls"
  by (cases ls) auto

lemma join_split_acc: "join_nl (split_acc cur s) = cur @ s"
  by (induction s arbitrary: cur) (auto simp: join_nl_Cons)

lemma join_split_nl: "join_nl (split_nl s) = s"
  by (simp add: split_nl_def join_split_acc)

lemma length_split_acc: "length (split_acc cur s) = Suc (count_list s NL)"
  by (induction s arbitrary: cur) auto

lemma length_split_nl: "length (split_nl s) = Suc (count_list s NL)"
  by (simp add: split_nl_def length_split_acc)

lemma split_acc_lines: "NL \<notin> set cur \<Longrightarrow> \<forall>l \<in> set (split_acc cur s). NL \<notin> set l"
proof (induction s arbitrary: cur)
  case Nil
  then show ?case by simp
next
  case (Cons c s)
  show ?case
  proof (cases "c = NL")
    case True
    then show ?thesis using Cons.IH [of "[]"] Cons.prems by simp
  next
    case False
    then show ?thesis using Cons.IH [of "cur @ [c]"] Cons.prems by simp
  qed
qed

lemma split_nl_lines: "l \<in> set (split_nl s) \<Longrightarrow> NL \<notin> set l"
  using split_acc_lines [of "[]" s] by (simp add: split_nl_def)

lemma set_join_nl: "c \<in> set (join_nl ls) \<Longrightarrow> c = NL \<or> (\<exists>l \<in> set ls. c \<in> set l)"
  by (induction ls rule: join_nl.induct) auto

lemma set_join_nl_mem: "l \<in> set ls \<Longrightarrow> c \<in> set l \<Longrightarrow> c \<in> set (join_nl ls)"
  by (induction ls rule: join_nl.induct) auto

lemma count_join_nl:
  "ls \<noteq> [] \<Longrightarrow> \<forall>l \<in> set ls. NL \<notin> set l \<Longrightarrow> count_list (join_nl ls) NL = length ls - 1"
  by (induction ls rule: join_nl.induct) (auto simp: count_list_0_iff)

lemma subseq_mem: "subseq xs ys \<Longrightarrow> l \<in> set xs \<Longrightarrow> l \<in> set ys"
  by (erule list_emb_set) auto

text \<open>Leaving lines out of a tag-free text leaves it tag-free.\<close>

lemma no_tag_join_subseq:
  "subseq xs ys \<Longrightarrow> \<not> has_tag (join_nl ys) \<Longrightarrow> \<not> has_tag (join_nl xs)"
proof (induction rule: list_emb.induct)
  case (list_emb_Nil ys)
  then show ?case by simp
next
  case (list_emb_Cons xs ys y)
  show ?case
  proof (cases ys)
    case Nil
    then show ?thesis using list_emb_Cons.hyps by (auto dest: list_emb_Nil2)
  next
    case (Cons a as)
    then have "join_nl (y # ys) = (y @ [NL]) @ join_nl ys" by simp
    then have "\<not> has_tag (join_nl ys)"
      using list_emb_Cons.prems has_tag_append_right by metis
    then show ?thesis using list_emb_Cons.IH by simp
  qed
next
  case (list_emb_Cons2 x y xs ys)
  then have xy: "x = y" by simp
  show ?case
  proof (cases xs)
    case Nil
    show ?thesis
    proof (cases ys)
      case Nil
      then show ?thesis using list_emb_Cons2.prems xy \<open>xs = []\<close> by simp
    next
      case (Cons a as)
      then have "join_nl (y # ys) = y @ (NL # join_nl ys)" by simp
      then have "\<not> has_tag y"
        using list_emb_Cons2.prems has_tag_append_left by metis
      then show ?thesis using xy \<open>xs = []\<close> by simp
    qed
  next
    case (Cons b bs)
    then have "ys \<noteq> []" using list_emb_Cons2.hyps by auto
    then have j: "join_nl (y # ys) = y @ NL # join_nl ys"
      by (simp add: join_nl_Cons)
    then have "join_nl (y # ys) = (y @ [NL]) @ join_nl ys" by simp
    then have "\<not> has_tag (join_nl ys)"
      using list_emb_Cons2.prems has_tag_append_right by metis
    then have ih: "\<not> has_tag (join_nl xs)" using list_emb_Cons2.IH by simp
    have gt: "CHR ''>'' \<in> set (NL # join_nl xs) \<Longrightarrow> CHR ''>'' \<in> set (NL # join_nl ys)"
    proof -
      assume "CHR ''>'' \<in> set (NL # join_nl xs)"
      then have "CHR ''>'' \<in> set (join_nl xs)" by simp
      then obtain l where l: "l \<in> set xs" "CHR ''>'' \<in> set l"
        using set_join_nl [of "CHR ''>''" xs] by auto
      then have "l \<in> set ys"
        using list_emb_Cons2.hyps(2) by (intro subseq_mem [of xs ys l])
      then show ?thesis using l(2) set_join_nl_mem [of l ys "CHR ''>''"] by simp
    qed
    have "\<not> has_tag (NL # join_nl xs)" using ih by (simp add: has_tag_Cons tag_opens_def)
    then have "\<not> has_tag (y @ NL # join_nl xs)"
      using has_tag_replace_tail [of y "NL # join_nl ys" "NL # join_nl xs"]
        list_emb_Cons2.prems j gt by auto
    then show ?thesis using Cons xy by (simp add: join_nl_Cons)
  qed
qed

section \<open>Lemmas about the scan for repeated lines\<close>

lemma lookahead_step: "lookahead lines i = Inr j \<Longrightarrow> j = 1 \<or> j = 2"
  by (auto simp: lookahead_def split: if_splits)

text \<open>
  What the scan appends, from the state \<open>(i, unique_lines)\<close> on: the lines at strictly
  increasing indices, none below \<open>i\<close> and none the last index.
\<close>

lemma dedup_loop_kept:
  "dedup_loop lines i u = Inr kept \<Longrightarrow>
     \<exists>idxs. kept = u @ map ((!) lines) idxs \<and> sorted_wrt (<) idxs
            \<and> (\<forall>k \<in> set idxs. i \<le> k \<and> k + 1 < length lines)"
proof (induction lines i u rule: dedup_loop.induct)
  case (1 lines i u)
  show ?case
  proof (cases "int i < int (length lines) - 1")
    case False
    then have "kept = u" using "1.prems" by (simp add: dedup_loop.simps [of lines i u])
    then show ?thesis by (intro exI [of _ "[]"]) simp
  next
    case True
    then obtain j where j: "lookahead lines i = Inr j"
      using "1.prems" by (cases "lookahead lines i") (simp_all add: dedup_loop.simps [of lines i u])
    then have rec: "dedup_loop lines (i + j) (u @ [lines ! i]) = Inr kept"
      using True "1.prems" by (simp add: dedup_loop.simps [of lines i u])
    from "1.IH" [OF True j rec] obtain idxs where
      idxs: "kept = (u @ [lines ! i]) @ map ((!) lines) idxs" "sorted_wrt (<) idxs"
        "\<forall>k \<in> set idxs. i + j \<le> k \<and> k + 1 < length lines"
      by blast
    have jpos: "0 < j" using lookahead_step [OF j] by auto
    have "kept = u @ map ((!) lines) (i # idxs)" using idxs(1) by simp
    moreover have "sorted_wrt (<) (i # idxs)" using idxs(2,3) jpos by auto
    moreover have "\<forall>k \<in> set (i # idxs). i \<le> k \<and> k + 1 < length lines"
      using idxs(3) True by auto
    ultimately show ?thesis by blast
  qed
qed

text \<open>The kept lines are lines of the list in their order, the last one left out.\<close>

lemma dedup_loop_subseq:
  "dedup_loop lines i u = Inr kept \<Longrightarrow>
     \<exists>r. kept = u @ r \<and> subseq r (drop i (butlast lines))"
proof (induction lines i u rule: dedup_loop.induct)
  case (1 lines i u)
  show ?case
  proof (cases "int i < int (length lines) - 1")
    case False
    then have "kept = u" using "1.prems" by (simp add: dedup_loop.simps [of lines i u])
    then show ?thesis by simp
  next
    case True
    then obtain j where j: "lookahead lines i = Inr j"
      using "1.prems" by (cases "lookahead lines i") (simp_all add: dedup_loop.simps [of lines i u])
    then have rec: "dedup_loop lines (i + j) (u @ [lines ! i]) = Inr kept"
      using True "1.prems" by (simp add: dedup_loop.simps [of lines i u])
    from "1.IH" [OF True j rec] obtain r where
      r: "kept = (u @ [lines ! i]) @ r" "subseq r (drop (i + j) (butlast lines))"
      by blast
    let ?B = "butlast lines"
    have i: "i < length ?B" using True by simp
    obtain d where d: "j = Suc d" using lookahead_step [OF j] by (cases j) auto
    have "drop d (drop (Suc i) ?B) = drop (i + j) ?B" using d by (simp add: add.commute)
    moreover have "suffix (drop d (drop (Suc i) ?B)) (drop (Suc i) ?B)" by (rule suffix_drop)
    ultimately have "suffix (drop (i + j) ?B) (drop (Suc i) ?B)" by (simp only:)
    then have "subseq r (drop (Suc i) ?B)"
      using r(2) suffix_imp_subseq subseq_order.trans by blast
    then have "subseq (lines ! i # r) (lines ! i # drop (Suc i) ?B)"
      by (rule subseq_Cons2)
    moreover have "?B ! i # drop (Suc i) ?B = drop i ?B" using i by (rule Cons_nth_drop_Suc)
    moreover have "?B ! i = lines ! i" using i by (rule nth_butlast)
    ultimately have "subseq (lines ! i # r) (drop i ?B)" by (simp only:)
    then show ?thesis using r(1) by simp
  qed
qed

lemma dedup_loop_result:
  assumes "dedup_loop lines 0 [] = Inr kept"
  shows "subseq kept lines" and "length kept \<le> length lines - 1"
proof -
  from dedup_loop_subseq [OF assms] have b: "subseq kept (butlast lines)" by simp
  have "subseq (butlast lines) lines" by (simp add: prefix_imp_subseq prefixeq_butlast)
  then show "subseq kept lines" using b subseq_order.trans by blast
  show "length kept \<le> length lines - 1" using list_emb_length [OF b] by simp
qed

subsection \<open>Step 8 leaves no blank line\<close>

lemma re_sub_newlines_first:
  assumes "s \<noteq> []" and "hd s \<noteq> NL"
  shows "re_sub (m_newlines k) repl s \<noteq> [] \<and> hd (re_sub (m_newlines k) repl s) \<noteq> NL"
proof -
  obtain c cs where s: "s = c # cs" using assms(1) by (cases s) auto
  have "\<forall>n. m_newlines k (c # cs) \<noteq> Some (Suc n)"
    using m_newlines_starts [of k s] assms(2) s by auto
  then show ?thesis using s assms(2) by (simp add: re_sub_copy)
qed

lemma re_sub_newlines_after:
  assumes "s = [] \<or> hd s \<noteq> NL"
  shows "re_sub (m_newlines k) repl s = [] \<or> hd (re_sub (m_newlines k) repl s) \<noteq> NL"
proof (cases "s = []")
  case True
  then show ?thesis by simp
next
  case False
  then show ?thesis using assms re_sub_newlines_first [of s k repl] by simp
qed

lemma no_blank_line_collapse: "no_blank_line (re_sub (m_newlines 2) [NL] s)"
  unfolding no_blank_line_def
proof (induction s rule: re_sub_induct [where m = "m_newlines 2"])
  case Nil
  then show ?case by simp
next
  case (Match c cs n)
  let ?d = "dropWhile (\<lambda>c. c = NL) (c # cs)"
  have d: "drop n cs = ?d" using m_newlines_rest [OF Match.hyps] .
  have "?d = [] \<or> hd ?d \<noteq> NL" using hd_dropWhile [of "\<lambda>c. c = NL" "c # cs"] by blast
  then have "re_sub (m_newlines 2) [NL] (drop n cs) = []
      \<or> hd (re_sub (m_newlines 2) [NL] (drop n cs)) \<noteq> NL"
    using re_sub_newlines_after [of ?d 2 "[NL]"] d by simp
  then show ?case using Match by (auto simp: re_sub_match successively_Cons)
next
  case (Copy c cs)
  have "c = NL \<Longrightarrow> cs = [] \<or> hd cs \<noteq> NL"
  proof -
    assume c: "c = NL"
    have "\<not> 2 \<le> length (takeWhile (\<lambda>c. c = NL) (c # cs))"
    proof
      assume a: "2 \<le> length (takeWhile (\<lambda>c. c = NL) (c # cs))"
      then obtain n where "length (takeWhile (\<lambda>c. c = NL) (c # cs)) = Suc n"
        by (cases "length (takeWhile (\<lambda>c. c = NL) (c # cs))") auto
      then have "m_newlines 2 (c # cs) = Some (Suc n)" using a by (simp add: m_newlines_def)
      then show False using Copy.hyps by simp
    qed
    then have "length (takeWhile (\<lambda>c. c = NL) (c # cs)) < 2" by linarith
    moreover have "takeWhile (\<lambda>c. c = NL) (c # cs) = c # takeWhile (\<lambda>c. c = NL) cs"
      using c by simp
    ultimately have "Suc (length (takeWhile (\<lambda>c. c = NL) cs)) < 2" by simp
    then have "takeWhile (\<lambda>c. c = NL) cs = []"
      by (cases "takeWhile (\<lambda>c. c = NL) cs") simp_all
    then show ?thesis by (cases cs) (auto split: if_splits)
  qed
  then have "c = NL \<Longrightarrow> re_sub (m_newlines 2) [NL] cs = []
      \<or> hd (re_sub (m_newlines 2) [NL] cs) \<noteq> NL"
    using re_sub_newlines_after [of cs 2 "[NL]"] by blast
  then show ?case using Copy by (auto simp: re_sub_copy successively_Cons)
qed

subsection \<open>The whole function\<close>

lemma clean_transcript_Inr:
  assumes "clean_transcript t = Inr v"
  obtains kept where "dedup_loop (split_nl (cleaned_before_dedup t)) 0 [] = Inr kept"
    and "v = re_sub (m_newlines 2) [NL] (join_nl kept)"
  using assms
  by (auto simp: clean_transcript_def cleaned_before_dedup_def Let_def split: sum.splits)

lemma no_tag_cleaned_before_dedup: "\<not> has_tag (cleaned_before_dedup t)"
proof -
  let ?c = "re_sub m_tag [] (re_sub m_timestamp_line [] (strip_header t))"
  let ?d = "re_sub (m_lit (''align:start position:0%'' @ [NL])) [] ?c"
  let ?e = "re_sub (m_newlines 3) [NL, NL] ?d"
  have "\<not> has_tag ?c" by (rule no_tag_after_tag_removal)
  then have "\<not> has_tag ?d"
    by (rule no_tag_re_sub [rotated 3]) (auto dest: m_lit_starts)
  then have "\<not> has_tag ?e"
    by (rule no_tag_re_sub [rotated 3]) (auto dest: m_newlines_starts)
  then show ?thesis unfolding cleaned_before_dedup_def by (rule no_tag_strip)
qed

lemma clean_transcript_no_tag:
  assumes "clean_transcript t = Inr v"
  shows "\<not> has_tag v"
proof -
  from assms obtain kept where
    k: "dedup_loop (split_nl (cleaned_before_dedup t)) 0 [] = Inr kept"
    and v: "v = re_sub (m_newlines 2) [NL] (join_nl kept)"
    by (rule clean_transcript_Inr)
  have "\<not> has_tag (join_nl (split_nl (cleaned_before_dedup t)))"
    by (simp add: join_split_nl no_tag_cleaned_before_dedup)
  then have "\<not> has_tag (join_nl kept)"
    using no_tag_join_subseq [OF dedup_loop_result(1) [OF k]] by simp
  then show ?thesis unfolding v
    by (rule no_tag_re_sub [rotated 3]) (auto dest: m_newlines_starts)
qed

subsection \<open>Texts in which a pattern does not occur\<close>

lemma re_sub_no_match: "\<not> re_search m s \<Longrightarrow> re_sub m repl s = s"
proof (induction s)
  case Nil
  then show ?case by simp
next
  case (Cons c cs)
  then have "\<forall>n. m (c # cs) \<noteq> Some (Suc n)" and "\<not> re_search m cs"
    by (auto split: option.splits nat.splits)
  then show ?case using Cons.IH by (simp add: re_sub_copy)
qed

lemma count_list_all: "\<forall>y \<in> set xs. y = x \<Longrightarrow> count_list xs x = length xs"
  by (induction xs) auto

lemma m_newlines_count:
  assumes "m_newlines k s = Some n"
  shows "k \<le> count_list s NL"
proof -
  let ?run = "takeWhile (\<lambda>c. c = NL) s"
  have k: "k \<le> length ?run"
    using assms by (auto simp: m_newlines_def Let_def split: if_splits)
  have "count_list ?run NL = length ?run"
  proof (rule count_list_all, rule ballI)
    fix y
    assume "y \<in> set ?run"
    then show "y = NL" by (drule_tac set_takeWhileD) simp
  qed
  moreover have "count_list (?run @ dropWhile (\<lambda>c. c = NL) s) NL = count_list s NL"
    by (simp only: takeWhile_dropWhile_id)
  ultimately show ?thesis using k by (simp only: count_list_append)
qed

lemma re_search_newlines_count: "re_search (m_newlines k) s \<Longrightarrow> k \<le> count_list s NL"
proof (induction s)
  case Nil
  then show ?case by simp
next
  case (Cons c cs)
  show ?case
  proof (cases "\<exists>n. m_newlines k (c # cs) = Some (Suc n)")
    case True
    then show ?thesis using m_newlines_count by blast
  next
    case False
    then have "re_search (m_newlines k) cs"
      using Cons.prems by (auto split: option.splits nat.splits)
    then have "k \<le> count_list cs NL" by (rule Cons.IH)
    then show ?thesis by simp
  qed
qed

lemma re_sub_newlines_few: "count_list s NL < k \<Longrightarrow> re_sub (m_newlines k) repl s = s"
  using re_search_newlines_count [of k s] by (intro re_sub_no_match) auto

lemma re_sub_keeps_newline: "NL \<in> set s \<Longrightarrow> NL \<in> set (re_sub m [NL] s)"
proof (induction s rule: re_sub_induct [where m = m])
  case Nil
  then show ?case by simp
next
  case (Match c cs n)
  then show ?case by (simp add: re_sub_match)
next
  case (Copy c cs)
  then show ?case by (auto simp: re_sub_copy)
qed

lemma strip_unchanged:
  assumes "s \<noteq> []" and "\<not> isspace (hd s)" and "\<not> isspace (last s)"
  shows "strip s = s"
proof -
  have a: "dropWhile isspace s = s" using assms(1,2) by (cases s) auto
  have "rev s \<noteq> []" "\<not> isspace (hd (rev s))" using assms(1,3) by (simp_all add: hd_rev)
  then have "dropWhile isspace (rev s) = rev s" by (cases "rev s") auto
  then show ?thesis by (simp add: strip_def a)
qed

lemma split_acc_line: "NL \<notin> set x \<Longrightarrow> split_acc cur x = [cur @ x]"
  by (induction x arbitrary: cur) auto

lemma split_acc_first_line:
  "NL \<notin> set x \<Longrightarrow> split_acc cur (x @ NL # r) = (cur @ x) # split_acc [] r"
  by (induction x arbitrary: cur) auto

lemma split_join_nl:
  "ls \<noteq> [] \<Longrightarrow> \<forall>l \<in> set ls. NL \<notin> set l \<Longrightarrow> split_nl (join_nl ls) = ls"
proof (induction ls rule: join_nl.induct)
  case 1
  then show ?case by simp
next
  case (2 l)
  then show ?case by (simp add: split_nl_def split_acc_line)
next
  case (3 l k ls)
  then have "split_acc [] (join_nl (k # ls)) = k # ls" by (simp add: split_nl_def)
  then show ?case using 3 by (simp add: split_nl_def split_acc_first_line)
qed

text \<open>Two texts cut at their first newline agree piece by piece.\<close>

lemma first_line_unique:
  "NL \<notin> set x \<Longrightarrow> NL \<notin> set y \<Longrightarrow> x @ NL # u = y @ NL # v \<Longrightarrow> x = y \<and> u = v"
proof (induction x arbitrary: y)
  case Nil
  then show ?case by (cases y) auto
next
  case (Cons c x)
  then show ?case by (cases y) auto
qed

lemma strip_header_three_lines:
  assumes "NL \<notin> set a" and "b \<noteq> []" and "NL \<notin> set b"
  shows "strip_header (a @ NL # b @ NL # c) = a @ NL # b @ NL # c"
proof -
  have "\<not> prefix (''WEBVTT'' @ [NL, NL]) (a @ NL # b @ NL # c)"
  proof
    assume "prefix (''WEBVTT'' @ [NL, NL]) (a @ NL # b @ NL # c)"
    then obtain r where "a @ NL # (b @ NL # c) = ''WEBVTT'' @ NL # (NL # r)"
      by (auto simp: prefix_def)
    moreover have "NL \<notin> set ''WEBVTT''" by (simp add: NL_def)
    ultimately have "b @ NL # c = NL # r"
      using assms(1) first_line_unique [of a "''WEBVTT''" "b @ NL # c" "NL # r"] by blast
    then show False using assms(2,3) by (cases b) auto
  qed
  then show ?thesis by (simp add: strip_header_def)
qed

subsection \<open>Three lines\<close>

lemma dedup_loop_three:
  "dedup_loop [a, b, c] 0 [] = Inr [a] \<longleftrightarrow> startswith b a"
proof (cases "startswith b a")
  case True
  then have "lookahead [a, b, c] 0 = Inr (Suc (Suc 0))"
    by (simp add: lookahead_def numeral_2_eq_2)
  then have "dedup_loop [a, b, c] 0 [] = dedup_loop [a, b, c] (Suc (Suc 0)) [a]"
    by (simp add: dedup_loop.simps [of "[a, b, c]" 0 "[]"])
  then have "dedup_loop [a, b, c] 0 [] = Inr [a]"
    by (simp add: dedup_loop.simps [of "[a, b, c]" "Suc (Suc 0)" "[a]"])
  then show ?thesis using True by simp
next
  case False
  then have "lookahead [a, b, c] 0 = Inr (Suc 0)" by (simp add: lookahead_def)
  then have 0: "dedup_loop [a, b, c] 0 [] = dedup_loop [a, b, c] (Suc 0) [a]"
    by (simp add: dedup_loop.simps [of "[a, b, c]" 0 "[]"])
  have "dedup_loop [a, b, c] (Suc 0) [a] \<noteq> Inr [a]"
  proof (cases "startswith c b")
    case True
    then have "lookahead [a, b, c] (Suc 0) = Inl IndexError" by (simp add: lookahead_def)
    then show ?thesis by (simp add: dedup_loop.simps [of "[a, b, c]" "Suc 0" "[a]"])
  next
    case False
    then have "lookahead [a, b, c] (Suc 0) = Inr (Suc 0)" by (simp add: lookahead_def)
    then have "dedup_loop [a, b, c] (Suc 0) [a] = dedup_loop [a, b, c] (Suc (Suc 0)) [a, b]"
      by (simp add: dedup_loop.simps [of "[a, b, c]" "Suc 0" "[a]"])
    then show ?thesis by (simp add: dedup_loop.simps [of "[a, b, c]" "Suc (Suc 0)" "[a, b]"])
  qed
  then show ?thesis using 0 False by simp
qed

text \<open>
  What the scan does on three lines, case by case: one kept line, two kept lines, or the
  read past the end.
\<close>

lemma dedup_loop_three_cases:
  "dedup_loop [a, b, c] 0 [] =
     (if startswith b a then Inr [a]
      else if startswith c b then Inl IndexError else Inr [a, b])"
proof (cases "startswith b a")
  case True
  then show ?thesis using dedup_loop_three [of a b c] by simp
next
  case False
  then have "lookahead [a, b, c] 0 = Inr (Suc 0)" by (simp add: lookahead_def)
  then have 0: "dedup_loop [a, b, c] 0 [] = dedup_loop [a, b, c] (Suc 0) [a]"
    by (simp add: dedup_loop.simps [of "[a, b, c]" 0 "[]"])
  show ?thesis
  proof (cases "startswith c b")
    case True
    then have "lookahead [a, b, c] (Suc 0) = Inl IndexError" by (simp add: lookahead_def)
    then show ?thesis using 0 True \<open>\<not> startswith b a\<close>
      by (simp add: dedup_loop.simps [of "[a, b, c]" "Suc 0" "[a]"])
  next
    case False
    then have "lookahead [a, b, c] (Suc 0) = Inr (Suc 0)" by (simp add: lookahead_def)
    then have "dedup_loop [a, b, c] (Suc 0) [a] = dedup_loop [a, b, c] (Suc (Suc 0)) [a, b]"
      by (simp add: dedup_loop.simps [of "[a, b, c]" "Suc 0" "[a]"])
    then show ?thesis using 0 False \<open>\<not> startswith b a\<close>
      by (simp add: dedup_loop.simps [of "[a, b, c]" "Suc (Suc 0)" "[a, b]"])
  qed
qed

text \<open>
  A text of three lines without any noise, not empty at either end and with no
  whitespace there, reaches the scan unchanged.
\<close>

lemma cleaned_before_dedup_three_lines:
  assumes nl: "NL \<notin> set a" "NL \<notin> set b" "NL \<notin> set c"
    and ends: "a \<noteq> []" "\<not> isspace (hd a)" "c \<noteq> []" "\<not> isspace (last c)"
    and b: "b \<noteq> []"
    and noise: "\<not> has_timestamp_line (join_nl [a, b, c])" "\<not> has_tag (join_nl [a, b, c])"
      "\<not> has_alignment (join_nl [a, b, c])"
  shows "cleaned_before_dedup (join_nl [a, b, c]) = join_nl [a, b, c]"
proof -
  let ?t = "join_nl [a, b, c]"
  have t: "?t = a @ NL # b @ NL # c" by simp
  have 1: "strip_header ?t = ?t" unfolding t using nl(1) b nl(2) by (rule strip_header_three_lines)
  have 2: "re_sub m_timestamp_line [] ?t = ?t"
    using noise(1) by (intro re_sub_no_match) (simp add: has_timestamp_line_def)
  have 3: "re_sub m_tag [] ?t = ?t"
    using noise(2) by (intro re_sub_no_match) (simp add: has_tag_def)
  have 4: "re_sub (m_lit (''align:start position:0%'' @ [NL])) [] ?t = ?t"
    using noise(3) by (intro re_sub_no_match) (simp add: has_alignment_def)
  have "count_list ?t NL = length [a, b, c] - 1"
    using nl by (intro count_join_nl) auto
  then have 5: "re_sub (m_newlines 3) [NL, NL] ?t = ?t"
    by (intro re_sub_newlines_few) simp
  have "hd ?t = hd a" "last ?t = last c" using ends(1,3) by simp_all
  then have 6: "strip ?t = ?t" using ends by (intro strip_unchanged) simp_all
  show ?thesis unfolding cleaned_before_dedup_def by (simp only: 1 2 3 4 5 6)
qed

lemma clean_transcript_three_lines:
  assumes nl: "NL \<notin> set a" "NL \<notin> set b" "NL \<notin> set c"
    and ends: "a \<noteq> []" "\<not> isspace (hd a)" "c \<noteq> []" "\<not> isspace (last c)"
    and b: "b \<noteq> []"
    and noise: "\<not> has_timestamp_line (join_nl [a, b, c])" "\<not> has_tag (join_nl [a, b, c])"
      "\<not> has_alignment (join_nl [a, b, c])"
  shows "clean_transcript (join_nl [a, b, c]) =
     (if startswith b a then Inr a
      else if startswith c b then Inl IndexError
      else Inr (re_sub (m_newlines 2) [NL] (join_nl [a, b])))"
proof -
  let ?t = "join_nl [a, b, c]"
  have c: "cleaned_before_dedup ?t = ?t"
    using assms by (rule cleaned_before_dedup_three_lines)
  have s: "split_nl ?t = [a, b, c]" using nl by (intro split_join_nl) auto
  have "count_list a NL < 2" using nl(1) by (simp add: count_list_0_iff [THEN iffD2])
  then have a: "re_sub (m_newlines 2) [NL] a = a" by (rule re_sub_newlines_few)
  have "clean_transcript ?t =
      (case dedup_loop (split_nl (cleaned_before_dedup ?t)) 0 [] of
         Inl e \<Rightarrow> Inl e
       | Inr unique_lines \<Rightarrow> Inr (re_sub (m_newlines 2) [NL] (join_nl unique_lines)))"
    by (simp only: clean_transcript_def cleaned_before_dedup_def Let_def)
  moreover have "join_nl [a] = a" by simp
  ultimately show ?thesis by (simp add: c s dedup_loop_three_cases a del: join_nl.simps)
qed

subsection \<open>Cleaning only deletes characters\<close>

lemma subseq_re_sub:
  assumes "\<And>c cs n. m (c # cs) = Some (Suc n) \<Longrightarrow> subseq repl (take (Suc n) (c # cs))"
  shows "subseq (re_sub m repl s) s"
proof (induction s rule: re_sub_induct [where m = m])
  case Nil
  then show ?case by simp
next
  case (Match c cs n)
  have "subseq (repl @ re_sub m repl (drop n cs)) (take (Suc n) (c # cs) @ drop n cs)"
    using assms [OF Match.hyps] Match.IH by (rule list_emb_append_mono)
  moreover have "take (Suc n) (c # cs) @ drop n cs = c # cs" by simp
  moreover have "re_sub m repl (c # cs) = repl @ re_sub m repl (drop n cs)"
    using Match.hyps by (rule re_sub_match)
  ultimately show ?case by (simp only:)
next
  case (Copy c cs)
  then show ?case by (simp add: re_sub_copy)
qed

lemma subseq_re_sub_delete: "subseq (re_sub m [] s) s"
  by (rule subseq_re_sub) simp

lemma subseq_re_sub_newlines:
  assumes "j \<le> k"
  shows "subseq (re_sub (m_newlines k) (replicate j NL) s) s"
proof (rule subseq_re_sub)
  fix c cs n
  assume a: "m_newlines k (c # cs) = Some (Suc n)"
  let ?run = "takeWhile (\<lambda>c. c = NL) (c # cs)"
  have n: "Suc n = length ?run" "k \<le> length ?run"
    using a by (auto simp: m_newlines_def Let_def split: if_splits)
  have run: "take (Suc n) (c # cs) = ?run"
    unfolding n(1) by (rule takeWhile_eq_take [symmetric])
  have "\<forall>y \<in> set ?run. y = NL"
  proof
    fix y
    assume "y \<in> set ?run"
    then show "y = NL" by (drule_tac set_takeWhileD) simp
  qed
  then have "replicate (length ?run) NL = ?run" by (rule replicate_length_same)
  moreover have "replicate (length ?run) NL = replicate j NL @ replicate (length ?run - j) NL"
    using assms n(2) by (simp add: replicate_add [symmetric])
  ultimately have "prefix (replicate j NL) ?run" by (metis prefixI)
  then show "subseq (replicate j NL) (take (Suc n) (c # cs))"
    unfolding run by (rule prefix_imp_subseq)
qed

lemma subseq_strip: "subseq (strip s) s"
proof -
  let ?t = "dropWhile isspace s"
  have "rev ?t = takeWhile isspace (rev ?t) @ dropWhile isspace (rev ?t)" by simp
  then have "?t = strip s @ rev (takeWhile isspace (rev ?t))"
    unfolding strip_def by (metis rev_append rev_rev_ident)
  then have "prefix (strip s) ?t" by (metis prefixI)
  moreover have "suffix ?t s" by (rule suffix_dropWhile)
  ultimately show ?thesis
    using prefix_imp_subseq suffix_imp_subseq subseq_order.trans by blast
qed

lemma subseq_strip_header: "subseq (strip_header s) s"
  by (simp add: strip_header_def suffix_drop suffix_imp_subseq)

lemma subseq_cleaned_before_dedup: "subseq (cleaned_before_dedup t) t"
proof -
  let ?a = "strip_header t"
  let ?b = "re_sub m_timestamp_line [] ?a"
  let ?c = "re_sub m_tag [] ?b"
  let ?d = "re_sub (m_lit (''align:start position:0%'' @ [NL])) [] ?c"
  let ?e = "re_sub (m_newlines 3) [NL, NL] ?d"
  have "[NL, NL] = replicate 2 NL" by (simp add: numeral_2_eq_2)
  then have e: "subseq ?e ?d" using subseq_re_sub_newlines [of 2 3 ?d] by simp
  have "subseq (strip ?e) ?e" by (rule subseq_strip)
  also have "subseq ?e ?d" by (rule e)
  also have "subseq ?d ?c" by (rule subseq_re_sub_delete)
  also have "subseq ?c ?b" by (rule subseq_re_sub_delete)
  also have "subseq ?b ?a" by (rule subseq_re_sub_delete)
  also have "subseq ?a t" by (rule subseq_strip_header)
  finally show ?thesis by (simp add: cleaned_before_dedup_def)
qed

lemma subseq_join_nl: "subseq xs ys \<Longrightarrow> subseq (join_nl xs) (join_nl ys)"
proof (induction rule: list_emb.induct)
  case (list_emb_Nil ys)
  then show ?case by simp
next
  case (list_emb_Cons xs ys y)
  show ?case
  proof (cases ys)
    case Nil
    then show ?thesis using list_emb_Cons.hyps by (auto dest: list_emb_Nil2)
  next
    case (Cons a as)
    then have "join_nl (y # ys) = (y @ [NL]) @ join_nl ys" by simp
    then show ?thesis using list_emb_Cons.IH by (simp only: subseq_drop_many)
  qed
next
  case (list_emb_Cons2 x y xs ys)
  then have xy: "x = y" by simp
  show ?case
  proof (cases xs)
    case Nil
    have "prefix y (join_nl (y # ys))" by (cases ys) simp_all
    then show ?thesis using Nil xy by (simp add: prefix_imp_subseq)
  next
    case (Cons b bs)
    then have "ys \<noteq> []" using list_emb_Cons2.hyps by auto
    then have "join_nl (y # ys) = (y @ [NL]) @ join_nl ys" by (simp add: join_nl_Cons)
    moreover have "join_nl (x # xs) = (y @ [NL]) @ join_nl xs"
      using Cons xy by (simp add: join_nl_Cons)
    ultimately show ?thesis using list_emb_Cons2.IH by (simp only: subseq_append')
  qed
qed

lemma clean_transcript_subseq:
  assumes "clean_transcript t = Inr v"
  shows "subseq v t"
proof -
  from assms obtain kept where
    k: "dedup_loop (split_nl (cleaned_before_dedup t)) 0 [] = Inr kept"
    and v: "v = re_sub (m_newlines 2) [NL] (join_nl kept)"
    by (rule clean_transcript_Inr)
  have "[NL] = replicate 1 NL" by simp
  then have "subseq v (join_nl kept)"
    unfolding v using subseq_re_sub_newlines [of 1 2 "join_nl kept"] by simp
  also have "subseq (join_nl kept) (join_nl (split_nl (cleaned_before_dedup t)))"
    using dedup_loop_result(1) [OF k] by (rule subseq_join_nl)
  also have "join_nl (split_nl (cleaned_before_dedup t)) = cleaned_before_dedup t"
    by (rule join_split_nl)
  also have "subseq (cleaned_before_dedup t) t" by (rule subseq_cleaned_before_dedup)
  finally show ?thesis .
qed

text \<open>
  The rule of the scan: it keeps line 0, and from a kept line \<open>k\<close> it goes on to line
  \<open>k + 2\<close> when line \<open>k + 1\<close> starts with line \<open>k\<close>, to line \<open>k + 1\<close> otherwise.
\<close>

lemma lookahead_value:
  "lookahead lines i = Inr j \<Longrightarrow>
     j = (if startswith (lines ! (i + 1)) (lines ! i) then 2 else 1)"
  by (auto simp: lookahead_def split: if_splits)

lemma dedup_loop_rule:
  "dedup_loop lines i u = Inr kept \<Longrightarrow>
     \<exists>idxs. kept = u @ map ((!) lines) idxs
        \<and> (\<forall>k \<in> set idxs. i \<le> k \<and> k < length lines)
        \<and> (idxs \<noteq> [] \<longrightarrow> hd idxs = i)
        \<and> successively
             (\<lambda>k k'. k' = (if startswith (lines ! (k + 1)) (lines ! k) then k + 2 else k + 1)) idxs"
proof (induction lines i u rule: dedup_loop.induct)
  case (1 lines i u)
  let ?R = "\<lambda>k k'. k' = (if startswith (lines ! (k + 1)) (lines ! k) then k + 2 else k + 1)"
  show ?case
  proof (cases "int i < int (length lines) - 1")
    case False
    then have "kept = u" using "1.prems" by (simp add: dedup_loop.simps [of lines i u])
    then show ?thesis by (intro exI [of _ "[]"]) simp
  next
    case True
    then obtain j where j: "lookahead lines i = Inr j"
      using "1.prems" by (cases "lookahead lines i") (simp_all add: dedup_loop.simps [of lines i u])
    then have rec: "dedup_loop lines (i + j) (u @ [lines ! i]) = Inr kept"
      using True "1.prems" by (simp add: dedup_loop.simps [of lines i u])
    from "1.IH" [OF True j rec] obtain idxs where
      idxs: "kept = (u @ [lines ! i]) @ map ((!) lines) idxs"
        "\<forall>k \<in> set idxs. i + j \<le> k \<and> k < length lines"
        "idxs \<noteq> [] \<longrightarrow> hd idxs = i + j"
        "successively ?R idxs"
      by blast
    have jv: "i + j = (if startswith (lines ! (i + 1)) (lines ! i) then i + 2 else i + 1)"
      using lookahead_value [OF j] by simp
    have "kept = u @ map ((!) lines) (i # idxs)" using idxs(1) by simp
    moreover have "\<forall>k \<in> set (i # idxs). i \<le> k \<and> k < length lines"
      using idxs(2) True by auto
    moreover have "i # idxs \<noteq> [] \<longrightarrow> hd (i # idxs) = i" by simp
    moreover have "successively ?R (i # idxs)"
      using idxs(3,4) jv by (auto simp: successively_Cons split: if_splits)
    ultimately show ?thesis by (intro exI [of _ "i # idxs"] conjI)
  qed
qed

section \<open>Properties of the caption cleaner\<close>

text \<open>
  Claim C1 fails on the code. The text of two lines \<^verbatim>\<open>A\<close>, \<^verbatim>\<open>Ab\<close> makes the scan read
  \<^verbatim>\<open>lines[2]\<close> of a list of two lines: \<open>clean_transcript\<close> raises IndexError.
\<close>

theorem clean_transcript_index_error:
  "clean_transcript ''A\<newline>Ab'' = Inl IndexError"
  by code_simp

text \<open>The same happens on any two lines of which the first is a prefix of the second.\<close>

lemma dedup_loop_two_lines_prefix:
  "startswith b a \<Longrightarrow> dedup_loop [a, b] 0 [] = Inl IndexError"
  by (simp add: dedup_loop.simps [of "[a, b]" 0 "[]"] lookahead_def)

text \<open>
  Claim C4. On three lines \<open>a\<close>, \<open>b\<close>, \<open>c\<close> the scan keeps exactly the one line \<open>a\<close> if
  and only if \<open>b\<close> starts with \<open>a\<close>: then the lookahead takes \<open>b\<close> and \<open>c\<close> for repeats.
  For a text of three such lines that is free of noise (no timestamp range, tag or
  alignment text; no newline inside a line; \<open>b\<close> not empty; no whitespace at the start
  of \<open>a\<close> or the end of \<open>c\<close>, which are not empty), \<open>clean_transcript\<close> returns the single
  line \<open>a\<close> under the same condition and under no other. Rolling captions, each line
  an extension of the one before, are such lines.
\<close>

theorem rolling_captions_one_line:
  "(dedup_loop [a, b, c] 0 [] = Inr [a] \<longleftrightarrow> startswith b a)
   \<and> (NL \<notin> set a \<and> NL \<notin> set b \<and> NL \<notin> set c
        \<and> a \<noteq> [] \<and> \<not> isspace (hd a) \<and> b \<noteq> [] \<and> c \<noteq> [] \<and> \<not> isspace (last c)
        \<and> \<not> has_timestamp_line (join_nl [a, b, c]) \<and> \<not> has_tag (join_nl [a, b, c])
        \<and> \<not> has_alignment (join_nl [a, b, c])
      \<longrightarrow> (clean_transcript (join_nl [a, b, c]) = Inr a \<longleftrightarrow> startswith b a))"
proof (intro conjI impI)
  show "dedup_loop [a, b, c] 0 [] = Inr [a] \<longleftrightarrow> startswith b a"
    by (rule dedup_loop_three)
next
  assume h: "NL \<notin> set a \<and> NL \<notin> set b \<and> NL \<notin> set c
        \<and> a \<noteq> [] \<and> \<not> isspace (hd a) \<and> b \<noteq> [] \<and> c \<noteq> [] \<and> \<not> isspace (last c)
        \<and> \<not> has_timestamp_line (join_nl [a, b, c]) \<and> \<not> has_tag (join_nl [a, b, c])
        \<and> \<not> has_alignment (join_nl [a, b, c])"
  then have r: "clean_transcript (join_nl [a, b, c]) =
     (if startswith b a then Inr a
      else if startswith c b then Inl IndexError
      else Inr (re_sub (m_newlines 2) [NL] (join_nl [a, b])))"
    by (intro clean_transcript_three_lines) simp_all
  have "NL \<in> set (join_nl [a, b])" by simp
  then have "NL \<in> set (re_sub (m_newlines 2) [NL] (join_nl [a, b]))"
    by (rule re_sub_keeps_newline)
  then have "re_sub (m_newlines 2) [NL] (join_nl [a, b]) \<noteq> a" using h by auto
  then show "clean_transcript (join_nl [a, b, c]) = Inr a \<longleftrightarrow> startswith b a"
    using r by simp
qed

theorem rolling_captions_one_line_witness:
  "dedup_loop [''A'', ''Ab'', ''Abc''] 0 [] = Inr [''A'']
   \<and> clean_transcript ''A\<newline>Ab\<newline>Abc'' = Inr ''A''
   \<and> dedup_loop [''x'', ''y'', ''z''] 0 [] \<noteq> Inr [''x'']
   \<and> clean_transcript ''x\<newline>y\<newline>z'' \<noteq> Inr ''x''"
proof -
  have j: "join_nl [''A'', ''Ab'', ''Abc''] = ''A\<newline>Ab\<newline>Abc''"
    "join_nl [''x'', ''y'', ''z''] = ''x\<newline>y\<newline>z''"
    by (simp_all add: NL_def)
  have n1: "\<not> has_timestamp_line ''A\<newline>Ab\<newline>Abc''" "\<not> has_tag ''A\<newline>Ab\<newline>Abc''"
    "\<not> has_alignment ''A\<newline>Ab\<newline>Abc''"
    by code_simp+
  have n2: "\<not> has_timestamp_line ''x\<newline>y\<newline>z''" "\<not> has_tag ''x\<newline>y\<newline>z''"
    "\<not> has_alignment ''x\<newline>y\<newline>z''"
    by code_simp+
  have s: "startswith ''Ab'' ''A''" "\<not> startswith ''y'' ''x''"
    by (simp_all add: startswith_def)
  have p: "NL \<notin> set ''A''" "NL \<notin> set ''Ab''" "NL \<notin> set ''Abc''"
    "NL \<notin> set ''x''" "NL \<notin> set ''y''" "NL \<notin> set ''z''"
    "\<not> isspace (hd ''A'')" "\<not> isspace (last ''Abc'')"
    "\<not> isspace (hd ''x'')" "\<not> isspace (last ''z'')"
    by (simp_all add: NL_def isspace_def)
  show ?thesis
    using rolling_captions_one_line [of "''A''" "''Ab''" "''Abc''"]
      rolling_captions_one_line [of "''x''" "''y''" "''z''"] n1 n2 s p
    unfolding j by simp
qed

text \<open>
  Claim C9. On a list of at least two lines on which the scan returns, the kept lines
  are the lines at strictly increasing indices that all lie below the last index: the
  last line is never appended, and at most \<open>length lines - 1\<close> lines are kept.
\<close>

theorem dedup_never_keeps_last_line:
  assumes "2 \<le> length lines" and "dedup_loop lines 0 [] = Inr unique_lines"
  shows "\<exists>idxs. unique_lines = map ((!) lines) idxs \<and> sorted_wrt (<) idxs
            \<and> (\<forall>k \<in> set idxs. k < length lines - 1)
            \<and> length unique_lines \<le> length lines - 1"
proof -
  from dedup_loop_kept [OF assms(2)] obtain idxs where
    idxs: "unique_lines = map ((!) lines) idxs" "sorted_wrt (<) idxs"
      "\<forall>k \<in> set idxs. k + 1 < length lines"
    by auto
  have "distinct idxs" using idxs(2) strict_sorted_iff by blast
  then have "length idxs = card (set idxs)" by (simp add: distinct_card)
  also have "\<dots> \<le> card {..< length lines - 1}"
    using idxs(3) by (intro card_mono) auto
  finally have "length unique_lines \<le> length lines - 1" using idxs(1) by simp
  then show ?thesis using idxs by (intro exI [of _ idxs]) auto
qed

theorem dedup_never_keeps_last_line_witness:
  "dedup_loop [''a'', ''b'', ''c''] 0 [] = Inr [''a'', ''b'']
   \<and> (\<exists>idxs. [''a'', ''b''] = map ((!) [''a'', ''b'', ''c'']) idxs \<and> sorted_wrt (<) idxs
            \<and> list_all (\<lambda>k. k < 2) idxs)"
proof -
  have d: "dedup_loop [''a'', ''b'', ''c''] 0 [] = Inr [''a'', ''b'']" by code_simp
  have l: "2 \<le> length [''a'', ''b'', ''c'']" by simp
  show ?thesis
    using dedup_never_keeps_last_line [OF l d] d by (simp add: list_all_iff numeral_2_eq_2)
qed

text \<open>
  Claim C6 fails on the code. A caption file as the video host writes it opens with
  \<^verbatim>\<open>WEBVTT\<close> and two metadata lines. Step 1 looks for \<^verbatim>\<open>WEBVTT\<close> directly followed by
  a blank line, finds nothing to remove, and the header is the start of the result.
\<close>

theorem clean_transcript_keeps_header:
  "has_header ''WEBVTT\<newline>Kind: captions\<newline>Language: en\<newline>\<newline>00:00:00.000 --> 00:00:02.000 align:start position:0%\<newline>hello<00:00:01.000><c> world</c>\<newline>\<newline>00:00:02.000 --> 00:00:04.000\<newline>hello world\<newline>again\<newline>end''
   \<and> has_timestamp_line ''WEBVTT\<newline>Kind: captions\<newline>Language: en\<newline>\<newline>00:00:00.000 --> 00:00:02.000 align:start position:0%\<newline>hello<00:00:01.000><c> world</c>\<newline>\<newline>00:00:02.000 --> 00:00:04.000\<newline>hello world\<newline>again\<newline>end''
   \<and> has_tag ''WEBVTT\<newline>Kind: captions\<newline>Language: en\<newline>\<newline>00:00:00.000 --> 00:00:02.000 align:start position:0%\<newline>hello<00:00:01.000><c> world</c>\<newline>\<newline>00:00:02.000 --> 00:00:04.000\<newline>hello world\<newline>again\<newline>end''
   \<and> clean_transcript ''WEBVTT\<newline>Kind: captions\<newline>Language: en\<newline>\<newline>00:00:00.000 --> 00:00:02.000 align:start position:0%\<newline>hello<00:00:01.000><c> world</c>\<newline>\<newline>00:00:02.000 --> 00:00:04.000\<newline>hello world\<newline>again\<newline>end''
       = Inr ''WEBVTT\<newline>Kind: captions\<newline>Language: en\<newline>again''
   \<and> has_header ''WEBVTT\<newline>Kind: captions\<newline>Language: en\<newline>again''"
  by code_simp

text \<open>The same on a shorter file with a single cue and no tag.\<close>

lemma clean_transcript_keeps_metadata_header:
  "clean_transcript
       ''WEBVTT\<newline>Kind: captions\<newline>Language: en\<newline>\<newline>00:00:00.000 --> 00:00:01.000\<newline>hi\<newline>there\<newline>end''
     = Inr ''WEBVTT\<newline>Kind: captions\<newline>Language: en\<newline>there''"
  by code_simp

text \<open>
  A timestamp range can stay as well: steps 2 and 3 run once each, in this order, and
  step 3 may complete a range by taking a tag out of it.
\<close>

lemma clean_transcript_keeps_a_timestamp_line:
  "clean_transcript ''WEBVTT\<newline>\<newline>00:00:00.000 --> 00:00:01.000 align:start position:0%\<newline><c>hi</c> there\<newline>00:00:01.000 --<c>> 00:00:02.000\<newline>foo\<newline>bar''
       = Inr ''hi there\<newline>00:00:01.000 --> 00:00:02.000\<newline>foo''
   \<and> has_timestamp_line ''hi there\<newline>00:00:01.000 --> 00:00:02.000\<newline>foo''"
  by code_simp

text \<open>Tags, in contrast, are gone from every result (\<open>clean_transcript_no_tag\<close>).\<close>

text \<open>
  Claim C5, as amended. \<open>clean_transcript\<close> is not idempotent. A pass only deletes
  characters: its result is a subsequence of its input, so cleaning cleaned text never
  adds or reorders anything. But it may delete again. The kept lines are lines of the
  list, the first of them line 0, and after a kept line \<open>k\<close> the next kept line is line
  \<open>k + 2\<close> when line \<open>k + 1\<close> starts with line \<open>k\<close>, and line \<open>k + 1\<close> otherwise: a line
  that starts with the kept line before it is dropped, whether the two were neighbours
  from the start or became neighbours through an earlier pass.
\<close>

theorem clean_transcript_only_deletes:
  "(clean_transcript t = Inr v \<longrightarrow> subseq v t)
   \<and> (dedup_loop lines 0 [] = Inr kept \<longrightarrow>
        (\<exists>idxs. kept = map ((!) lines) idxs
           \<and> (\<forall>k \<in> set idxs. k < length lines)
           \<and> (idxs \<noteq> [] \<longrightarrow> hd idxs = 0)
           \<and> successively
                (\<lambda>k k'. k' = (if startswith (lines ! (k + 1)) (lines ! k) then k + 2 else k + 1))
                idxs))"
proof (intro conjI impI)
  assume "clean_transcript t = Inr v"
  then show "subseq v t" by (rule clean_transcript_subseq)
next
  assume "dedup_loop lines 0 [] = Inr kept"
  from dedup_loop_rule [OF this] show
    "\<exists>idxs. kept = map ((!) lines) idxs
           \<and> (\<forall>k \<in> set idxs. k < length lines)
           \<and> (idxs \<noteq> [] \<longrightarrow> hd idxs = 0)
           \<and> successively
                (\<lambda>k k'. k' = (if startswith (lines ! (k + 1)) (lines ! k) then k + 2 else k + 1))
                idxs"
    by simp
qed

theorem clean_transcript_only_deletes_witness:
  "clean_transcript ''A\<newline>Ab\<newline>Abc\<newline>Abcd\<newline>X\<newline>Y\<newline>Z'' = Inr ''A\<newline>Abc\<newline>X\<newline>Y''
   \<and> clean_transcript ''A\<newline>Abc\<newline>X\<newline>Y'' = Inr ''A\<newline>X''
   \<and> subseq ''A\<newline>X'' ''A\<newline>Abc\<newline>X\<newline>Y''
   \<and> dedup_loop [''A'', ''Abc'', ''X'', ''Y''] 0 [] = Inr [''A'', ''X'']
   \<and> (\<exists>idxs. [''A'', ''X''] = map ((!) [''A'', ''Abc'', ''X'', ''Y'']) idxs
         \<and> (\<forall>k \<in> set idxs. k < length [''A'', ''Abc'', ''X'', ''Y''])
         \<and> (idxs \<noteq> [] \<longrightarrow> hd idxs = 0)
         \<and> successively
              (\<lambda>k k'. k' = (if startswith ([''A'', ''Abc'', ''X'', ''Y''] ! (k + 1))
                                   ([''A'', ''Abc'', ''X'', ''Y''] ! k) then k + 2 else k + 1))
              idxs)"
proof -
  let ?v = "''A\<newline>Abc\<newline>X\<newline>Y''"
  let ?w = "''A\<newline>X''"
  let ?lines = "[''A'', ''Abc'', ''X'', ''Y'']"
  let ?kept = "[''A'', ''X'']"
  have 1: "clean_transcript ?v = Inr ?w" by code_simp
  have 2: "dedup_loop ?lines 0 [] = Inr ?kept" by code_simp
  have 3: "clean_transcript ''A\<newline>Ab\<newline>Abc\<newline>Abcd\<newline>X\<newline>Y\<newline>Z'' = Inr ?v"
    by code_simp
  note both = clean_transcript_only_deletes [of ?v ?w ?lines ?kept]
  have a: "subseq ?w ?v"
    by (rule mp [OF conjunct1 [OF both] 1])
  note b = mp [OF conjunct2 [OF both] 2]
  show ?thesis by (intro conjI) (rule 3, rule 1, rule a, rule 2, rule b)
qed

text \<open>
  The claim as stated fails. The first pass over the seven lines \<^verbatim>\<open>A\<close>, \<^verbatim>\<open>Ab\<close>,
  \<^verbatim>\<open>Abc\<close>, \<^verbatim>\<open>Abcd\<close>, \<^verbatim>\<open>X\<close>, \<^verbatim>\<open>Y\<close>, \<^verbatim>\<open>Z\<close> keeps \<^verbatim>\<open>A\<close> and \<^verbatim>\<open>Abc\<close>, two lines apart;
  in the second pass they are neighbours and \<^verbatim>\<open>Abc\<close> goes as a repeat of \<^verbatim>\<open>A\<close>.
\<close>

theorem clean_transcript_not_idempotent:
  "clean_transcript ''A\<newline>Ab\<newline>Abc\<newline>Abcd\<newline>X\<newline>Y\<newline>Z'' = Inr ''A\<newline>Abc\<newline>X\<newline>Y''
   \<and> clean_twice ''A\<newline>Ab\<newline>Abc\<newline>Abcd\<newline>X\<newline>Y\<newline>Z'' = Inr ''A\<newline>X''
   \<and> clean_twice ''A\<newline>Ab\<newline>Abc\<newline>Abcd\<newline>X\<newline>Y\<newline>Z''
        \<noteq> clean_transcript ''A\<newline>Ab\<newline>Abc\<newline>Abcd\<newline>X\<newline>Y\<newline>Z''"
  by code_simp

end
